theory Spec2Isabelle
  imports Main
begin

section \<open>Dekker's algorithm: the program of dekker.cpp as a transition system\<close>

text \<open>
  Every shared variable of dekker.cpp is a \<open>std::atomic\<close> and every access to it is
  sequentially consistent, so an execution of the two threads is an interleaving of
  their atomic accesses. The model has one control location per shared-memory access of
  \<open>thread_function\<close>, \<open>dekker_lock\<close> and \<open>dekker_unlock\<close>; purely local
  computation is folded into the access that precedes it. The calls of \<open>print\<close>,
  \<open>yield\<close> and \<open>sleep_for\<close> touch none of the modelled variables and are left out.
\<close>

subsection \<open>Control locations\<close>

datatype loc =
    LoopHead          \<comment> \<open>line 97: test \<open>i < NUM_ITERATIONS\<close>\<close>
  | RaiseFlag         \<comment> \<open>line 49: \<open>flag[id].store(true)\<close>\<close>
  | ReadContention    \<comment> \<open>line 52: \<open>contention = flag[other].load()\<close>\<close>
  | CheckPeer         \<comment> \<open>line 58: \<open>while (flag[other].load())\<close>\<close>
  | CheckTurn         \<comment> \<open>line 59: \<open>if (turn.load() != id)\<close>\<close>
  | PrintTurn         \<comment> \<open>line 60: \<open>turn.load()\<close> inside the message\<close>
  | LowerFlag         \<comment> \<open>line 61: \<open>flag[id].store(false)\<close>\<close>
  | WaitTurn          \<comment> \<open>line 64: \<open>while (turn.load() != id)\<close>\<close>
  | ReRaiseFlag       \<comment> \<open>line 69: \<open>flag[id].store(true)\<close>\<close>
  | IncOccupancy      \<comment> \<open>lines 104-107: \<open>cs_count = ++in_critical_section\<close> and its test\<close>
  | ReadCounter       \<comment> \<open>line 110: \<open>old_val = shared_counter.load()\<close>\<close>
  | WriteCounter      \<comment> \<open>lines 115-116: \<open>shared_counter.store(old_val + 1)\<close>\<close>
  | DecOccupancy      \<comment> \<open>line 119: \<open>--in_critical_section\<close>\<close>
  | SetTurn           \<comment> \<open>line 83: \<open>turn.store(other)\<close>\<close>
  | ClearFlag         \<comment> \<open>line 84: \<open>flag[id].store(false)\<close>\<close>
  | Remainder         \<comment> \<open>lines 126-128: remainder section, then \<open>i++\<close>\<close>
  | Finished          \<comment> \<open>line 130: the loop is left, the thread returns\<close>

subsection \<open>Shared and thread-local state\<close>

text \<open>
  The globals \<open>flag[2]\<close>, \<open>turn\<close>, \<open>shared_counter\<close> and \<open>in_critical_section\<close>
  keep their names. \<open>violation\<close> records that line 106 has written its message.
  \<open>pc\<close>, \<open>iter\<close> (the loop variable \<open>i\<close>) and \<open>old_val\<close> are the locals of
  \<open>thread_function\<close>, indexed by the thread's \<open>id\<close>. Only the indices 0 and 1
  are ever used: \<open>main\<close> starts \<open>thread_function(0)\<close> and \<open>thread_function(1)\<close>.
\<close>

record state =
  flag :: "int \<Rightarrow> bool"
  turn :: int
  shared_counter :: int
  in_critical_section :: int
  violation :: bool
  pc :: "int \<Rightarrow> loc"
  iter :: "int \<Rightarrow> int"
  old_val :: "int \<Rightarrow> int"

definition NUM_ITERATIONS :: int where
  "NUM_ITERATIONS = 5"

definition goto :: "int \<Rightarrow> loc \<Rightarrow> state \<Rightarrow> state" where
  "goto id' l s = s\<lparr>pc := (pc s)(id' := l)\<rparr>"

subsection \<open>The entry protocol\<close>

definition dekker_lock :: "int \<Rightarrow> int \<Rightarrow> state \<Rightarrow> state" where
  "dekker_lock id' other s =
     (case pc s id' of
        RaiseFlag \<Rightarrow> goto id' ReadContention (s\<lparr>flag := (flag s)(id' := True)\<rparr>)
      | ReadContention \<Rightarrow> goto id' CheckPeer s
      | CheckPeer \<Rightarrow>
          if flag s other then goto id' CheckTurn s else goto id' IncOccupancy s
      | CheckTurn \<Rightarrow>
          if turn s \<noteq> id' then goto id' PrintTurn s else goto id' CheckPeer s
      | PrintTurn \<Rightarrow> goto id' LowerFlag s
      | LowerFlag \<Rightarrow> goto id' WaitTurn (s\<lparr>flag := (flag s)(id' := False)\<rparr>)
      | WaitTurn \<Rightarrow>
          if turn s \<noteq> id' then s else goto id' ReRaiseFlag s
      | ReRaiseFlag \<Rightarrow> goto id' CheckPeer (s\<lparr>flag := (flag s)(id' := True)\<rparr>)
      | _ \<Rightarrow> s)"

subsection \<open>The exit protocol\<close>

definition dekker_unlock :: "int \<Rightarrow> int \<Rightarrow> state \<Rightarrow> state" where
  "dekker_unlock id' other s =
     (case pc s id' of
        SetTurn \<Rightarrow> goto id' ClearFlag (s\<lparr>turn := other\<rparr>)
      | ClearFlag \<Rightarrow> goto id' Remainder (s\<lparr>flag := (flag s)(id' := False)\<rparr>)
      | _ \<Rightarrow> s)"

subsection \<open>The contender loop\<close>

text \<open>
  One atomic step of \<open>thread_function(id)\<close>. The loop bound is the parameter \<open>n\<close>;
  the program runs with \<open>n = NUM_ITERATIONS\<close>.
\<close>

definition thread_function :: "int \<Rightarrow> int \<Rightarrow> state \<Rightarrow> state" where
  "thread_function n id' s =
     (let other = 1 - id' in
      case pc s id' of
        LoopHead \<Rightarrow>
          if iter s id' < n then goto id' RaiseFlag s else goto id' Finished s
      | IncOccupancy \<Rightarrow>
          (let cs_count = in_critical_section s + 1 in
           goto id' ReadCounter
             (s\<lparr>in_critical_section := cs_count,
                violation := (violation s \<or> cs_count > 1)\<rparr>))
      | ReadCounter \<Rightarrow>
          goto id' WriteCounter (s\<lparr>old_val := (old_val s)(id' := shared_counter s)\<rparr>)
      | WriteCounter \<Rightarrow>
          goto id' DecOccupancy (s\<lparr>shared_counter := old_val s id' + 1\<rparr>)
      | DecOccupancy \<Rightarrow>
          goto id' SetTurn (s\<lparr>in_critical_section := in_critical_section s - 1\<rparr>)
      | SetTurn \<Rightarrow> dekker_unlock id' other s
      | ClearFlag \<Rightarrow> dekker_unlock id' other s
      | Remainder \<Rightarrow> goto id' LoopHead (s\<lparr>iter := (iter s)(id' := iter s id' + 1)\<rparr>)
      | Finished \<Rightarrow> s
      | _ \<Rightarrow> dekker_lock id' other s)"

subsection \<open>The two threads of main and their interleavings\<close>

datatype worker = T0 | T1

fun wid :: "worker \<Rightarrow> int" where
  "wid T0 = 0"
| "wid T1 = 1"

definition init :: state where
  "init = \<lparr>flag = (\<lambda>_. False), turn = 0, shared_counter = 0, in_critical_section = 0,
           violation = False, pc = (\<lambda>_. LoopHead), iter = (\<lambda>_. 0), old_val = (\<lambda>_. 0)\<rparr>"

definition step :: "int \<Rightarrow> worker \<Rightarrow> state \<Rightarrow> state" where
  "step n w s = thread_function n (wid w) s"

fun run :: "int \<Rightarrow> worker list \<Rightarrow> state \<Rightarrow> state" where
  "run n [] s = s"
| "run n (w # ws) s = run n ws (step n w s)"

text \<open>A thread is inside the critical section from the return of \<open>dekker_lock\<close> up to
  the store of line 84 that lowers its flag.\<close>

fun in_cs :: "loc \<Rightarrow> bool" where
  "in_cs IncOccupancy = True"
| "in_cs ReadCounter = True"
| "in_cs WriteCounter = True"
| "in_cs DecOccupancy = True"
| "in_cs SetTurn = True"
| "in_cs ClearFlag = True"
| "in_cs _ = False"

subsection \<open>The final check of main\<close>

text \<open>
  Lines 156-172: \<open>main\<close> joins both threads, which returns once both have reached
  \<open>Finished\<close>, and then compares \<open>shared_counter\<close> with \<open>NUM_ITERATIONS * 2\<close>.
  A schedule that stops before both threads have finished gives \<open>None\<close>.
\<close>

datatype verdict = Verified | RaceDetected

definition report :: "int \<Rightarrow> state \<Rightarrow> verdict" where
  "report n s = (if shared_counter s = n * 2 then Verified else RaceDetected)"

definition main :: "int \<Rightarrow> worker list \<Rightarrow> verdict option" where
  "main n sched =
     (let s = run n sched init in
      if pc s 0 = Finished \<and> pc s 1 = Finished then Some (report n s) else None)"

subsection \<open>Invariants of the reachable states\<close>

text \<open>\<open>flag_up l\<close>: the thread's own flag is raised while it is at location \<open>l\<close>.\<close>

fun flag_up :: "loc \<Rightarrow> bool" where
  "flag_up LoopHead = False"
| "flag_up RaiseFlag = False"
| "flag_up WaitTurn = False"
| "flag_up ReRaiseFlag = False"
| "flag_up Remainder = False"
| "flag_up Finished = False"
| "flag_up _ = True"

text \<open>\<open>occ l\<close>: the thread's contribution to \<open>in_critical_section\<close> at location \<open>l\<close>.\<close>

fun occ :: "loc \<Rightarrow> int" where
  "occ ReadCounter = 1"
| "occ WriteCounter = 1"
| "occ DecOccupancy = 1"
| "occ _ = 0"

text \<open>\<open>wrote l\<close>: the increment of the current iteration is already stored.\<close>

fun wrote :: "loc \<Rightarrow> int" where
  "wrote DecOccupancy = 1"
| "wrote SetTurn = 1"
| "wrote ClearFlag = 1"
| "wrote Remainder = 1"
| "wrote _ = 0"

fun in_loop :: "loc \<Rightarrow> bool" where
  "in_loop LoopHead = False"
| "in_loop Finished = False"
| "in_loop _ = True"

definition safe :: "state \<Rightarrow> bool" where
  "safe s \<longleftrightarrow>
     (turn s = 0 \<or> turn s = 1) \<and>
     flag s 0 = flag_up (pc s 0) \<and> flag s 1 = flag_up (pc s 1) \<and>
     \<not> (in_cs (pc s 0) \<and> in_cs (pc s 1)) \<and>
     in_critical_section s = occ (pc s 0) + occ (pc s 1) \<and>
     \<not> violation s \<and>
     (pc s 0 = ClearFlag \<longrightarrow> turn s = 1) \<and>
     (pc s 1 = ClearFlag \<longrightarrow> turn s = 0) \<and>
     (pc s 0 = ReRaiseFlag \<longrightarrow> turn s = 0) \<and>
     (pc s 1 = ReRaiseFlag \<longrightarrow> turn s = 1)"

definition counted :: "int \<Rightarrow> state \<Rightarrow> bool" where
  "counted n s \<longleftrightarrow>
     shared_counter s = iter s 0 + wrote (pc s 0) + iter s 1 + wrote (pc s 1) \<and>
     (pc s 0 = WriteCounter \<longrightarrow> old_val s 0 = shared_counter s) \<and>
     (pc s 1 = WriteCounter \<longrightarrow> old_val s 1 = shared_counter s) \<and>
     0 \<le> iter s 0 \<and> 0 \<le> iter s 1 \<and>
     (in_loop (pc s 0) \<longrightarrow> iter s 0 < n) \<and>
     (in_loop (pc s 1) \<longrightarrow> iter s 1 < n) \<and>
     (iter s 0 \<le> n \<or> iter s 0 = 0) \<and>
     (iter s 1 \<le> n \<or> iter s 1 = 0) \<and>
     (pc s 0 = Finished \<longrightarrow> n \<le> iter s 0) \<and>
     (pc s 1 = Finished \<longrightarrow> n \<le> iter s 1)"

subsection \<open>Acquisitions and waiting along a run\<close>

text \<open>
  A thread is waiting to enter while it is inside \<open>dekker_lock\<close>. It acquires the
  section with the step that leaves the loop of line 58. \<open>acquisitions n w xs s\<close>
  counts the acquisitions of \<open>w\<close> while the schedule \<open>xs\<close> runs from \<open>s\<close>, and
  \<open>waits_throughout n v xs s\<close> says that \<open>v\<close> is waiting in every state of that run.
  A waiting thread is committed when it is at the loop test of lines 52-59 and
  \<open>turn\<close> names it.
\<close>

fun waiting :: "loc \<Rightarrow> bool" where
  "waiting RaiseFlag = True"
| "waiting ReadContention = True"
| "waiting CheckPeer = True"
| "waiting CheckTurn = True"
| "waiting PrintTurn = True"
| "waiting LowerFlag = True"
| "waiting WaitTurn = True"
| "waiting ReRaiseFlag = True"
| "waiting _ = False"

definition acquires :: "int \<Rightarrow> worker \<Rightarrow> state \<Rightarrow> bool" where
  "acquires n w s \<longleftrightarrow>
     pc s (wid w) = CheckPeer \<and> pc (step n w s) (wid w) = IncOccupancy"

fun acquisitions :: "int \<Rightarrow> worker \<Rightarrow> worker list \<Rightarrow> state \<Rightarrow> nat" where
  "acquisitions n w [] s = 0"
| "acquisitions n w (x # xs) s =
     (if x = w \<and> acquires n w s then 1 else 0) + acquisitions n w xs (step n x s)"

fun waits_throughout :: "int \<Rightarrow> worker \<Rightarrow> worker list \<Rightarrow> state \<Rightarrow> bool" where
  "waits_throughout n v [] s = waiting (pc s (wid v))"
| "waits_throughout n v (x # xs) s =
     (waiting (pc s (wid v)) \<and> waits_throughout n v xs (step n x s))"

fun at_loop_test :: "loc \<Rightarrow> bool" where
  "at_loop_test ReadContention = True"
| "at_loop_test CheckPeer = True"
| "at_loop_test CheckTurn = True"
| "at_loop_test _ = False"

definition committed :: "worker \<Rightarrow> state \<Rightarrow> bool" where
  "committed v s \<longleftrightarrow> turn s = wid v \<and> at_loop_test (pc s (wid v))"

subsection \<open>Fair schedules and a progress measure\<close>

text \<open>
  An infinite schedule is fair when each thread is scheduled again and again;
  \<open>exec n \<sigma> k\<close> is the state after its first \<open>k\<close> steps. \<open>work\<close> bounds what is
  left to do: the releases still to come, weighted, plus the rank of each thread's
  location, which depends on whether \<open>turn\<close> favours the thread. A thread is stuck
  when its next step cannot lower \<open>work\<close>: it has finished, it spins at line 64, or
  it spins at lines 58-59 behind the raised flag of its peer.
\<close>

fun mid :: "loc \<Rightarrow> bool" where
  "mid LoopHead = False"
| "mid RaiseFlag = False"
| "mid ClearFlag = False"
| "mid Remainder = False"
| "mid Finished = False"
| "mid _ = True"

fun backing_off :: "loc \<Rightarrow> bool" where
  "backing_off CheckTurn = True"
| "backing_off PrintTurn = True"
| "backing_off LowerFlag = True"
| "backing_off WaitTurn = True"
| "backing_off _ = False"

definition yielding :: "state \<Rightarrow> bool" where
  "yielding s \<longleftrightarrow>
     (backing_off (pc s 0) \<and> turn s \<noteq> 0 \<longrightarrow> mid (pc s 1)) \<and>
     (backing_off (pc s 1) \<and> turn s \<noteq> 1 \<longrightarrow> mid (pc s 0))"

fun releases_left :: "int \<Rightarrow> loc \<Rightarrow> int \<Rightarrow> nat" where
  "releases_left n ClearFlag i = nat (n - i) - 1"
| "releases_left n Remainder i = nat (n - i) - 1"
| "releases_left n _ i = nat (n - i)"

fun rank :: "loc \<Rightarrow> bool \<Rightarrow> bool \<Rightarrow> nat" where
  "rank ClearFlag fav fo = 44"
| "rank Remainder fav fo = 42"
| "rank LoopHead fav fo = 40"
| "rank RaiseFlag fav fo = 38"
| "rank ReadContention fav fo = 36"
| "rank ReRaiseFlag fav fo = (if fav then 28 else 36)"
| "rank CheckPeer fav fo = (if fav then (if fo then 25 else 24) else 34)"
| "rank CheckTurn fav fo = (if fav then 25 else 32)"
| "rank PrintTurn fav fo = (if fav then 34 else 30)"
| "rank LowerFlag fav fo = (if fav then 32 else 28)"
| "rank WaitTurn fav fo = (if fav then 30 else 26)"
| "rank IncOccupancy fav fo = 22"
| "rank ReadCounter fav fo = 20"
| "rank WriteCounter fav fo = 18"
| "rank DecOccupancy fav fo = 16"
| "rank SetTurn fav fo = 14"
| "rank Finished fav fo = 0"

definition effort :: "int \<Rightarrow> int \<Rightarrow> state \<Rightarrow> nat" where
  "effort n id' s =
     100 * releases_left n (pc s id') (iter s id') +
     rank (pc s id') (turn s = id') (flag s (1 - id'))"

definition work :: "int \<Rightarrow> state \<Rightarrow> nat" where
  "work n s = effort n 0 s + effort n 1 s"

definition stuck :: "worker \<Rightarrow> state \<Rightarrow> bool" where
  "stuck w s \<longleftrightarrow>
     pc s (wid w) = Finished \<or>
     (pc s (wid w) = WaitTurn \<and> turn s \<noteq> wid w) \<or>
     ((pc s (wid w) = CheckPeer \<or> pc s (wid w) = CheckTurn) \<and>
        turn s = wid w \<and> flag s (1 - wid w))"

definition exec :: "int \<Rightarrow> (nat \<Rightarrow> worker) \<Rightarrow> nat \<Rightarrow> state" where
  "exec n \<sigma> k = run n (map \<sigma> [0..<k]) init"

definition fair :: "(nat \<Rightarrow> worker) \<Rightarrow> bool" where
  "fair \<sigma> \<longleftrightarrow> (\<forall>w k. \<exists>j. k \<le> j \<and> \<sigma> j = w)"

section \<open>Safety\<close>

lemmas step_defs = step_def thread_function_def dekker_lock_def dekker_unlock_def goto_def

lemma safe_init: "safe init"
  by (simp add: safe_def init_def)

lemma safe_step: "safe s \<Longrightarrow> safe (step n w s)"
  by (cases w; cases "pc s 0"; cases "pc s 1"; auto simp add: safe_def step_defs)

lemma safe_run: "safe s \<Longrightarrow> safe (run n ws s)"
  by (induction ws arbitrary: s) (simp_all add: safe_step)

lemma safe_reachable: "safe (run n sched init)"
  by (rule safe_run [OF safe_init])

lemma counted_init: "counted n init"
  by (simp add: counted_def init_def)

lemma counted_step: "safe s \<Longrightarrow> counted n s \<Longrightarrow> counted n (step n w s)"
  by (cases w; cases "pc s 0"; cases "pc s 1"; auto simp add: safe_def counted_def step_defs)

lemma counted_run: "safe s \<Longrightarrow> counted n s \<Longrightarrow> counted n (run n ws s)"
  by (induction ws arbitrary: s) (simp_all add: safe_step counted_step)

lemma counted_reachable: "counted n (run n sched init)"
  by (rule counted_run [OF safe_init counted_init])

lemma occ_le_in_cs: "occ l \<le> (if in_cs l then 1 else 0)"
  by (cases l) simp_all

lemma wrote_le_in_loop: "0 \<le> wrote l \<and> wrote l \<le> (if in_loop l then 1 else 0)"
  by (cases l) simp_all

lemma counters_in_range:
  assumes "0 \<le> n"
  shows "0 \<le> shared_counter (run n sched init) \<and> shared_counter (run n sched init) \<le> 2 * n \<and>
         0 \<le> iter (run n sched init) (wid w) \<and> iter (run n sched init) (wid w) \<le> n \<and>
         0 \<le> in_critical_section (run n sched init) \<and>
         in_critical_section (run n sched init) \<le> 1"
proof -
  let ?s = "run n sched init"
  have c: "counted n ?s" by (rule counted_reachable)
  have s: "safe ?s" by (rule safe_reachable)
  have i: "0 \<le> iter ?s (wid w) \<and> iter ?s (wid w) \<le> n"
    using c assms by (cases w) (auto simp add: counted_def)
  have "0 \<le> shared_counter ?s \<and> shared_counter ?s \<le> 2 * n"
    using c assms wrote_le_in_loop [of "pc ?s 0"] wrote_le_in_loop [of "pc ?s 1"]
    by (auto simp add: counted_def split: if_splits)
  moreover have "0 \<le> in_critical_section ?s \<and> in_critical_section ?s \<le> 1"
    using s occ_le_in_cs [of "pc ?s 0"] occ_le_in_cs [of "pc ?s 1"]
    by (cases "pc ?s 0"; cases "pc ?s 1"; simp add: safe_def)
  ultimately show ?thesis using i by simp
qed

text \<open>
  Claim C1 (mutual exclusion). For every loop bound and every interleaving of the two
  threads, in the state reached the two threads are never both inside the critical
  section, \<open>in_critical_section\<close> is at most 1, and the message of line 106 has not
  been written (no \<open>cs_count\<close> above 1 was ever observed).
\<close>

theorem mutual_exclusion:
  "\<not> (in_cs (pc (run n sched init) 0) \<and> in_cs (pc (run n sched init) 1)) \<and>
   in_critical_section (run n sched init) \<le> 1 \<and>
   \<not> violation (run n sched init)"
proof -
  let ?s = "run n sched init"
  have s: "safe ?s" by (rule safe_reachable)
  then have ex: "\<not> (in_cs (pc ?s 0) \<and> in_cs (pc ?s 1))" and v: "\<not> violation ?s"
    and c: "in_critical_section ?s = occ (pc ?s 0) + occ (pc ?s 1)"
    by (simp_all add: safe_def)
  have "occ (pc ?s 0) + occ (pc ?s 1) \<le> 1"
    using ex occ_le_in_cs [of "pc ?s 0"] occ_le_in_cs [of "pc ?s 1"]
    by (auto split: if_splits)
  with ex v c show ?thesis by simp
qed

theorem mutual_exclusion_witness:
  "in_cs (pc (run NUM_ITERATIONS [T0, T0, T0, T0, T0, T1, T1, T1, T1, T1] init) 0) \<and>
   \<not> in_cs (pc (run NUM_ITERATIONS [T0, T0, T0, T0, T0, T1, T1, T1, T1, T1] init) 1) \<and>
   in_critical_section (run NUM_ITERATIONS [T0, T0, T0, T0, T0, T1, T1, T1, T1, T1] init) = 1"
  using mutual_exclusion [of NUM_ITERATIONS "[T0, T0, T0, T0, T0, T1, T1, T1, T1, T1]"]
  by (simp add: step_defs init_def NUM_ITERATIONS_def)

text \<open>
  Claim C5 (payload). In every run in which both threads have finished their \<open>n\<close>
  cycles (\<open>0 \<le> n\<close>), \<open>shared_counter\<close> is exactly \<open>2 * n\<close> and \<open>main\<close> takes the
  branch that reports success; the report is success exactly when the counter
  equals \<open>2 * n\<close>. All counters stay between 0 and \<open>2 * n\<close>, so no \<open>int\<close> of the
  program overflows when \<open>2 * n\<close> is representable, as it is for \<open>NUM_ITERATIONS = 5\<close>.
\<close>

theorem payload_correct:
  assumes "0 \<le> n"
    and "pc (run n sched init) 0 = Finished" and "pc (run n sched init) 1 = Finished"
  shows "shared_counter (run n sched init) = 2 * n \<and>
         main n sched = Some Verified \<and>
         (\<forall>s. report n s = Verified \<longleftrightarrow> shared_counter s = 2 * n)"
proof -
  let ?s = "run n sched init"
  have "counted n ?s" by (rule counted_reachable)
  with assms have "shared_counter ?s = 2 * n"
    by (auto simp add: counted_def)
  with assms show ?thesis
    by (auto simp add: main_def report_def)
qed

theorem payload_correct_witness:
  "shared_counter (run NUM_ITERATIONS (concat (replicate 120 [T0, T1])) init) = 10 \<and>
   main NUM_ITERATIONS (concat (replicate 120 [T0, T1])) = Some Verified"
proof -
  have a: "0 \<le> NUM_ITERATIONS" by (simp add: NUM_ITERATIONS_def)
  have b: "pc (run NUM_ITERATIONS (concat (replicate 120 [T0, T1])) init) 0 = Finished"
    by code_simp
  have c: "pc (run NUM_ITERATIONS (concat (replicate 120 [T0, T1])) init) 1 = Finished"
    by code_simp
  from payload_correct [OF a b c] show ?thesis
    by (simp add: NUM_ITERATIONS_def)
qed

text \<open>
  Claim C2 (backing off). In \<open>dekker_lock\<close>, a thread that finds the flag of its peer
  raised goes on to read \<open>turn\<close>; if \<open>turn\<close> is not its own identity it lowers its
  own flag, stays at line 64 while \<open>turn\<close> is not its identity, and on reading its
  identity there it goes to line 69, raises its flag again and returns to the loop
  test of line 58. A thread enters the section only by its own step from that loop
  test, on reading the flag of its peer lowered: never straight from line 64 or 69.
\<close>

theorem backoff_cycle:
  "(pc s (wid w) = CheckPeer \<and> flag s (1 - wid w) \<longrightarrow>
      pc (step n w s) (wid w) = CheckTurn \<and> flag (step n w s) = flag s) \<and>
   (pc s (wid w) = CheckTurn \<and> turn s \<noteq> wid w \<longrightarrow>
      pc (step n w s) (wid w) = PrintTurn \<and> flag (step n w s) = flag s) \<and>
   (pc s (wid w) = PrintTurn \<longrightarrow>
      pc (step n w s) (wid w) = LowerFlag \<and> flag (step n w s) = flag s) \<and>
   (pc s (wid w) = LowerFlag \<longrightarrow>
      pc (step n w s) (wid w) = WaitTurn \<and> flag (step n w s) = (flag s)(wid w := False)) \<and>
   (pc s (wid w) = WaitTurn \<and> turn s \<noteq> wid w \<longrightarrow> step n w s = s) \<and>
   (pc s (wid w) = WaitTurn \<and> turn s = wid w \<longrightarrow>
      pc (step n w s) (wid w) = ReRaiseFlag \<and> flag (step n w s) = flag s) \<and>
   (pc s (wid w) = ReRaiseFlag \<longrightarrow>
      pc (step n w s) (wid w) = CheckPeer \<and> flag (step n w s) = (flag s)(wid w := True)) \<and>
   (pc (step n v s) (wid w) = IncOccupancy \<and> pc s (wid w) \<noteq> IncOccupancy \<longrightarrow>
      v = w \<and> pc s (wid w) = CheckPeer \<and> \<not> flag s (1 - wid w))"
  by (cases w; cases v; cases "pc s 0"; cases "pc s 1"; simp add: step_defs)

theorem backoff_cycle_witness:
  "pc (step NUM_ITERATIONS T1 (run NUM_ITERATIONS [T0, T0, T1, T1, T1] init)) 1 = CheckTurn \<and>
   pc (step NUM_ITERATIONS T1 (run NUM_ITERATIONS [T0, T0, T1, T1, T1, T1] init)) 1 = PrintTurn \<and>
   pc (step NUM_ITERATIONS T1 (run NUM_ITERATIONS [T0, T0, T1, T1, T1, T1, T1] init)) 1 = LowerFlag \<and>
   \<not> flag (step NUM_ITERATIONS T1 (run NUM_ITERATIONS [T0, T0, T1, T1, T1, T1, T1, T1] init)) 1 \<and>
   step NUM_ITERATIONS T1 (run NUM_ITERATIONS [T0, T0, T1, T1, T1, T1, T1, T1, T1] init) =
     run NUM_ITERATIONS [T0, T0, T1, T1, T1, T1, T1, T1, T1] init \<and>
   pc (step NUM_ITERATIONS T1 (run NUM_ITERATIONS
        [T0, T0, T1, T1, T1, T1, T1, T1, T1, T0, T0, T0, T0, T0, T0, T0, T0, T0] init)) 1 = ReRaiseFlag \<and>
   flag (step NUM_ITERATIONS T1 (run NUM_ITERATIONS
        [T0, T0, T1, T1, T1, T1, T1, T1, T1, T0, T0, T0, T0, T0, T0, T0, T0, T0, T1] init)) 1 \<and>
   pc (run NUM_ITERATIONS
        [T0, T0, T1, T1, T1, T1, T1, T1, T1, T0, T0, T0, T0, T0, T0, T0, T0, T0, T1, T1] init) 1 = CheckPeer \<and>
   \<not> flag (run NUM_ITERATIONS
        [T0, T0, T1, T1, T1, T1, T1, T1, T1, T0, T0, T0, T0, T0, T0, T0, T0, T0, T1, T1] init) 0"
  using
    backoff_cycle [of "run NUM_ITERATIONS [T0, T0, T1, T1, T1] init" T1 NUM_ITERATIONS T1]
    backoff_cycle [of "run NUM_ITERATIONS [T0, T0, T1, T1, T1, T1] init" T1 NUM_ITERATIONS T1]
    backoff_cycle [of "run NUM_ITERATIONS [T0, T0, T1, T1, T1, T1, T1] init" T1 NUM_ITERATIONS T1]
    backoff_cycle [of "run NUM_ITERATIONS [T0, T0, T1, T1, T1, T1, T1, T1] init" T1 NUM_ITERATIONS T1]
    backoff_cycle [of "run NUM_ITERATIONS [T0, T0, T1, T1, T1, T1, T1, T1, T1] init" T1 NUM_ITERATIONS T1]
    backoff_cycle [of "run NUM_ITERATIONS
        [T0, T0, T1, T1, T1, T1, T1, T1, T1, T0, T0, T0, T0, T0, T0, T0, T0, T0] init" T1 NUM_ITERATIONS T1]
    backoff_cycle [of "run NUM_ITERATIONS
        [T0, T0, T1, T1, T1, T1, T1, T1, T1, T0, T0, T0, T0, T0, T0, T0, T0, T0, T1] init" T1 NUM_ITERATIONS T1]
    backoff_cycle [of "run NUM_ITERATIONS
        [T0, T0, T1, T1, T1, T1, T1, T1, T1, T0, T0, T0, T0, T0, T0, T0, T0, T0, T1, T1] init" T1 NUM_ITERATIONS T1]
  by (simp add: step_defs init_def NUM_ITERATIONS_def)

text \<open>
  Claim C3 (exit protocol). \<open>thread_function\<close> runs \<open>dekker_unlock id (1 - id)\<close>
  after the critical work. Its first step stores \<open>other\<close> into \<open>turn\<close> and changes
  nothing else of the shared state; its second step lowers \<open>flag[id]\<close> and changes
  nothing else. Run without interruption, the call as a whole writes \<open>turn\<close> and
  \<open>flag[id]\<close> only.
\<close>

theorem unlock_order:
  "(pc s (wid w) = SetTurn \<or> pc s (wid w) = ClearFlag \<longrightarrow>
      step n w s = dekker_unlock (wid w) (1 - wid w) s) \<and>
   (pc s id' = SetTurn \<longrightarrow>
      dekker_unlock id' other s = s\<lparr>turn := other, pc := (pc s)(id' := ClearFlag)\<rparr>) \<and>
   (pc s id' = ClearFlag \<longrightarrow>
      dekker_unlock id' other s =
        s\<lparr>flag := (flag s)(id' := False), pc := (pc s)(id' := Remainder)\<rparr>) \<and>
   (pc s id' = SetTurn \<longrightarrow>
      dekker_unlock id' other (dekker_unlock id' other s) =
        s\<lparr>flag := (flag s)(id' := False), turn := other, pc := (pc s)(id' := Remainder)\<rparr>)"
  by (auto simp add: step_defs)

theorem unlock_order_witness:
  "turn (step NUM_ITERATIONS T0 (run NUM_ITERATIONS [T0, T0, T0, T0, T0, T0, T0, T0] init)) = 1 \<and>
   flag (step NUM_ITERATIONS T0 (run NUM_ITERATIONS [T0, T0, T0, T0, T0, T0, T0, T0] init)) 0 \<and>
   \<not> flag (step NUM_ITERATIONS T0 (run NUM_ITERATIONS [T0, T0, T0, T0, T0, T0, T0, T0, T0] init)) 0 \<and>
   turn (step NUM_ITERATIONS T0 (run NUM_ITERATIONS [T0, T0, T0, T0, T0, T0, T0, T0, T0] init)) = 1"
  using
    unlock_order [of "run NUM_ITERATIONS [T0, T0, T0, T0, T0, T0, T0, T0] init" T0 NUM_ITERATIONS 0 1]
    unlock_order [of "run NUM_ITERATIONS [T0, T0, T0, T0, T0, T0, T0, T0, T0] init" T0 NUM_ITERATIONS 0 1]
  by (simp add: step_defs init_def NUM_ITERATIONS_def)

text \<open>
  Claim C4 (turn). In every reachable state \<open>turn\<close> is 0 or 1. A step changes
  \<open>turn\<close> only if it is the store of line 83 in \<open>dekker_unlock\<close>; that store sets
  it to \<open>1 - id\<close>, and it still is \<open>1 - id\<close> when the second and last step of the
  same \<open>dekker_unlock\<close> has been taken.
\<close>

theorem turn_validity:
  "(turn (run n sched init) = 0 \<or> turn (run n sched init) = 1) \<and>
   (turn (step n w (run n sched init)) \<noteq> turn (run n sched init) \<longrightarrow>
      pc (run n sched init) (wid w) = SetTurn) \<and>
   (pc (run n sched init) (wid w) = SetTurn \<longrightarrow>
      turn (step n w (run n sched init)) = 1 - wid w) \<and>
   (pc (run n sched init) (wid w) = ClearFlag \<longrightarrow>
      turn (step n w (run n sched init)) = 1 - wid w)"
proof -
  let ?s = "run n sched init"
  have s: "safe ?s" by (rule safe_reachable)
  have 1: "turn ?s = 0 \<or> turn ?s = 1" using s by (simp add: safe_def)
  have 2: "turn (step n w ?s) \<noteq> turn ?s \<longrightarrow> pc ?s (wid w) = SetTurn"
    by (cases "pc ?s (wid w)") (simp_all add: step_defs)
  have 3: "pc ?s (wid w) = SetTurn \<longrightarrow> turn (step n w ?s) = 1 - wid w"
    by (simp add: step_defs)
  have 4: "pc ?s (wid w) = ClearFlag \<longrightarrow> turn (step n w ?s) = 1 - wid w"
    using s by (cases w) (auto simp add: step_defs safe_def)
  from 1 2 3 4 show ?thesis by blast
qed

theorem turn_validity_witness:
  "turn (run NUM_ITERATIONS [T0, T0, T0, T0, T0, T0, T0, T0] init) = 0 \<and>
   pc (run NUM_ITERATIONS [T0, T0, T0, T0, T0, T0, T0, T0] init) 0 = SetTurn \<and>
   turn (step NUM_ITERATIONS T0 (run NUM_ITERATIONS [T0, T0, T0, T0, T0, T0, T0, T0] init)) = 1 \<and>
   pc (run NUM_ITERATIONS [T0, T0, T0, T0, T0, T0, T0, T0, T0] init) 0 = ClearFlag \<and>
   turn (step NUM_ITERATIONS T0 (run NUM_ITERATIONS [T0, T0, T0, T0, T0, T0, T0, T0, T0] init)) = 1"
  using
    turn_validity [of NUM_ITERATIONS "[T0, T0, T0, T0, T0, T0, T0, T0]" T0]
    turn_validity [of NUM_ITERATIONS "[T0, T0, T0, T0, T0, T0, T0, T0, T0]" T0]
  by (simp add: step_defs init_def NUM_ITERATIONS_def)

text \<open>
  Claim C6 (intent first). \<open>dekker_lock\<close> is entered at the store of line 49. That
  step raises the thread's own flag and does not depend on the flag of the peer; the
  first read of the peer's flag (line 52) is reached only by that step; and in every
  reachable state, a thread that is about to read the flag of its peer (line 52 or
  line 58) has its own flag raised.
\<close>

theorem intent_before_check:
  "(pc s (wid w) = LoopHead \<and> iter s (wid w) < n \<longrightarrow> pc (step n w s) (wid w) = RaiseFlag) \<and>
   (pc (step n v s) (wid w) = ReadContention \<and> pc s (wid w) \<noteq> ReadContention \<longrightarrow>
      v = w \<and> pc s (wid w) = RaiseFlag) \<and>
   (pc s (wid w) = RaiseFlag \<longrightarrow>
      flag (step n w s) (wid w) \<and> pc (step n w s) (wid w) = ReadContention \<and>
      step n w (s\<lparr>flag := (flag s)(1 - wid w := b)\<rparr>) =
        (step n w s)\<lparr>flag := (flag (step n w s))(1 - wid w := b)\<rparr>) \<and>
   (pc (run n sched init) (wid w) = ReadContention \<or>
    pc (run n sched init) (wid w) = CheckPeer \<longrightarrow> flag (run n sched init) (wid w))"
proof -
  have 1: "pc s (wid w) = RaiseFlag \<longrightarrow>
      flag (step n w s) (wid w) \<and> pc (step n w s) (wid w) = ReadContention \<and>
      step n w (s\<lparr>flag := (flag s)(1 - wid w := b)\<rparr>) =
        (step n w s)\<lparr>flag := (flag (step n w s))(1 - wid w := b)\<rparr>"
    by (cases w) (auto simp add: step_defs fun_upd_twist)
  have "safe (run n sched init)" by (rule safe_reachable)
  then have 2: "pc (run n sched init) (wid w) = ReadContention \<or>
    pc (run n sched init) (wid w) = CheckPeer \<longrightarrow> flag (run n sched init) (wid w)"
    by (cases w) (auto simp add: safe_def)
  have 3: "pc s (wid w) = LoopHead \<and> iter s (wid w) < n \<longrightarrow>
      pc (step n w s) (wid w) = RaiseFlag"
    by (simp add: step_defs)
  have 4: "pc (step n v s) (wid w) = ReadContention \<and> pc s (wid w) \<noteq> ReadContention \<longrightarrow>
      v = w \<and> pc s (wid w) = RaiseFlag"
    by (cases w; cases v; cases "pc s 0"; cases "pc s 1"; simp add: step_defs)
  from 1 2 3 4 show ?thesis by blast
qed

theorem intent_before_check_witness:
  "pc (step NUM_ITERATIONS T1 init) 1 = RaiseFlag \<and>
   pc (run NUM_ITERATIONS [T1] init) 1 = RaiseFlag \<and>
   flag (step NUM_ITERATIONS T1 (run NUM_ITERATIONS [T1] init)) 1 \<and>
   pc (step NUM_ITERATIONS T1 (run NUM_ITERATIONS [T1] init)) 1 = ReadContention \<and>
   pc (run NUM_ITERATIONS [T1, T1] init) 1 = ReadContention \<and>
   flag (run NUM_ITERATIONS [T1, T1] init) 1"
  using
    intent_before_check [of init T1 NUM_ITERATIONS T1 True "[T1, T1]"]
    intent_before_check [of "run NUM_ITERATIONS [T1] init" T1 NUM_ITERATIONS T1 True "[T1, T1]"]
  by (simp add: step_defs init_def NUM_ITERATIONS_def)

text \<open>
  Claim C10 (holder's flag). In every reachable state a thread inside the critical
  section has its flag raised; the step that returns from \<open>dekker_lock\<close> leaves the
  flag raised; and a step lowers the flag of a thread only if it is that thread's own
  step at line 61 (backing off) or line 84 (unlock).
\<close>

theorem holder_flag:
  "(in_cs (pc (run n sched init) (wid w)) \<longrightarrow> flag (run n sched init) (wid w)) \<and>
   (pc (step n w s) (wid w) = IncOccupancy \<and> flag s (wid w) \<longrightarrow> flag (step n w s) (wid w)) \<and>
   (flag s (wid w) \<and> \<not> flag (step n v s) (wid w) \<longrightarrow>
      v = w \<and> (pc s (wid w) = LowerFlag \<or> pc s (wid w) = ClearFlag))"
proof -
  let ?r = "run n sched init"
  have "safe ?r" by (rule safe_reachable)
  then have 1: "in_cs (pc ?r (wid w)) \<longrightarrow> flag ?r (wid w)"
    by (cases w; cases "pc ?r (wid w)") (simp_all add: safe_def)
  have 2: "pc (step n w s) (wid w) = IncOccupancy \<and> flag s (wid w) \<longrightarrow> flag (step n w s) (wid w)"
    by (cases "pc s (wid w)") (auto simp add: step_defs split: if_splits)
  have 3: "flag s (wid w) \<and> \<not> flag (step n v s) (wid w) \<longrightarrow>
      v = w \<and> (pc s (wid w) = LowerFlag \<or> pc s (wid w) = ClearFlag)"
    by (cases w; cases v; cases "pc s 0"; cases "pc s 1"; simp add: step_defs)
  from 1 2 3 show ?thesis by blast
qed

theorem holder_flag_witness:
  "in_cs (pc (run NUM_ITERATIONS [T0, T0, T0, T0, T0, T0] init) 0) \<and>
   flag (run NUM_ITERATIONS [T0, T0, T0, T0, T0, T0] init) 0 \<and>
   pc (run NUM_ITERATIONS [T0, T0, T0, T0, T0, T0, T0, T0, T0] init) 0 = ClearFlag \<and>
   \<not> flag (step NUM_ITERATIONS T0 (run NUM_ITERATIONS [T0, T0, T0, T0, T0, T0, T0, T0, T0] init)) 0"
  using
    holder_flag [of NUM_ITERATIONS "[T0, T0, T0, T0, T0, T0]" T0
       "run NUM_ITERATIONS [T0, T0, T0, T0, T0, T0, T0, T0, T0] init" T0]
  by (simp add: step_defs init_def NUM_ITERATIONS_def)

section \<open>Starvation\<close>

lemma committed_keeps:
  assumes "safe s" "committed v s" "waiting (pc (step n x s) (wid v))"
  shows "committed v (step n x s)"
  using assms
  by (cases v; cases x; cases "pc s 0"; cases "pc s 1";
      simp add: committed_def safe_def step_defs)

lemma committed_blocks:
  assumes "safe s" "v \<noteq> w" "committed v s"
  shows "\<not> acquires n w s"
  using assms
  by (cases v; cases w; cases "pc s (wid v)";
      simp add: committed_def acquires_def safe_def step_defs)

lemma committed_step:
  assumes "safe s" "v \<noteq> w" "committed v s" "waiting (pc (step n x s) (wid v))"
  shows "committed v (step n x s) \<and> \<not> (x = w \<and> acquires n w s)"
  using committed_keeps [OF assms(1,3,4)] committed_blocks [OF assms(1,2,3)] by simp

lemma waits_throughout_hd: "waits_throughout n v xs s \<Longrightarrow> waiting (pc s (wid v))"
  by (cases xs) simp_all

lemma committed_run:
  "safe s \<Longrightarrow> v \<noteq> w \<Longrightarrow> committed v s \<Longrightarrow> waits_throughout n v xs s \<Longrightarrow>
   acquisitions n w xs s = 0 \<and> committed v (run n xs s)"
proof (induction xs arbitrary: s)
  case Nil
  then show ?case by simp
next
  case (Cons x xs)
  from Cons.prems have wt: "waits_throughout n v xs (step n x s)" by simp
  then have "waiting (pc (step n x s) (wid v))" by (rule waits_throughout_hd)
  with Cons.prems have c: "committed v (step n x s)" and a: "\<not> (x = w \<and> acquires n w s)"
    using committed_step by blast+
  have "safe (step n x s)" using Cons.prems(1) by (rule safe_step)
  from Cons.IH [OF this Cons.prems(2) c wt] a show ?case by simp
qed

text \<open>
  Claim C7 (no starvation) as the specification states it: no thread acquires the
  section twice while the other is waiting throughout. This fails. Thread 1 backs
  off to line 64 with its flag lowered; thread 0 acquires, releases (\<open>turn = 1\<close>),
  thread 1 reads \<open>turn\<close> and moves to line 69 without having raised its flag yet,
  and thread 0 acquires a second time. Thread 1 is inside \<open>dekker_lock\<close> all along.
\<close>

theorem starvation_counterexample:
  "waits_throughout NUM_ITERATIONS T1
     [T0, T0, T0, T0, T0, T0, T1, T0, T0, T0, T0, T0, T0]
     (run NUM_ITERATIONS [T0, T0, T1, T1, T1, T1, T1, T1, T1, T0] init) \<and>
   acquisitions NUM_ITERATIONS T0
     [T0, T0, T0, T0, T0, T0, T1, T0, T0, T0, T0, T0, T0]
     (run NUM_ITERATIONS [T0, T0, T1, T1, T1, T1, T1, T1, T1, T0] init) = 2"
  by (simp add: acquires_def step_defs init_def NUM_ITERATIONS_def)

text \<open>
  Claim C7, amended. A waiting thread that is at the loop test of lines 52-59 while
  \<open>turn\<close> names it is not overtaken: as long as it keeps waiting, the other thread
  acquires nothing, the waiting thread's flag stays raised and \<open>turn\<close> keeps naming
  it. A thread that has regained \<open>turn\<close> is in this position as soon as it has
  raised its flag again at line 69.
\<close>

theorem no_overtaking_once_committed:
  assumes "v \<noteq> w"
    and "committed v (run n sched1 init)"
    and "waits_throughout n v sched2 (run n sched1 init)"
  shows "acquisitions n w sched2 (run n sched1 init) = 0 \<and>
         flag (run n sched2 (run n sched1 init)) (wid v) \<and>
         turn (run n sched2 (run n sched1 init)) = wid v \<and>
         (pc (run n sched0 init) (wid v) = ReRaiseFlag \<longrightarrow>
            committed v (step n v (run n sched0 init)))"
proof -
  have "safe (run n sched0 init)" by (rule safe_reachable)
  then have r: "pc (run n sched0 init) (wid v) = ReRaiseFlag \<longrightarrow>
            committed v (step n v (run n sched0 init))"
    by (cases v) (auto simp add: safe_def committed_def step_defs)
  have s: "safe (run n sched1 init)" by (rule safe_reachable)
  from committed_run [OF s assms]
  have a: "acquisitions n w sched2 (run n sched1 init) = 0"
    and c: "committed v (run n sched2 (run n sched1 init))" by simp_all
  have "safe (run n sched2 (run n sched1 init))" using s by (rule safe_run)
  with c have "flag (run n sched2 (run n sched1 init)) (wid v)"
    by (cases v; cases "pc (run n sched2 (run n sched1 init)) (wid v)")
       (simp_all add: committed_def safe_def)
  with a c r show ?thesis by (simp add: committed_def)
qed

theorem no_overtaking_once_committed_witness:
  "pc (run NUM_ITERATIONS
        [T0, T0, T1, T1, T1, T1, T1, T1, T1, T0, T0, T0, T0, T0, T0, T0, T1] init) 1 = ReRaiseFlag \<and>
   committed T1 (run NUM_ITERATIONS
        [T0, T0, T1, T1, T1, T1, T1, T1, T1, T0, T0, T0, T0, T0, T0, T0, T1, T1] init) \<and>
   waits_throughout NUM_ITERATIONS T1 [T0, T0, T0, T0, T0, T0, T1, T1, T0, T0, T0]
     (run NUM_ITERATIONS
        [T0, T0, T1, T1, T1, T1, T1, T1, T1, T0, T0, T0, T0, T0, T0, T0, T1, T1] init) \<and>
   acquisitions NUM_ITERATIONS T0 [T0, T0, T0, T0, T0, T0, T1, T1, T0, T0, T0]
     (run NUM_ITERATIONS
        [T0, T0, T1, T1, T1, T1, T1, T1, T1, T0, T0, T0, T0, T0, T0, T0, T1, T1] init) = 0"
proof -
  have a: "T1 \<noteq> T0" by simp
  have b: "committed T1 (run NUM_ITERATIONS
        [T0, T0, T1, T1, T1, T1, T1, T1, T1, T0, T0, T0, T0, T0, T0, T0, T1, T1] init)"
    by (simp add: committed_def step_defs init_def NUM_ITERATIONS_def)
  have c: "waits_throughout NUM_ITERATIONS T1 [T0, T0, T0, T0, T0, T0, T1, T1, T0, T0, T0]
     (run NUM_ITERATIONS
        [T0, T0, T1, T1, T1, T1, T1, T1, T1, T0, T0, T0, T0, T0, T0, T0, T1, T1] init)"
    by (simp add: step_defs init_def NUM_ITERATIONS_def)
  have d: "pc (run NUM_ITERATIONS
        [T0, T0, T1, T1, T1, T1, T1, T1, T1, T0, T0, T0, T0, T0, T0, T0, T1] init) 1 = ReRaiseFlag"
    by (simp add: step_defs init_def NUM_ITERATIONS_def)
  from no_overtaking_once_committed [OF a b c,
      of "[T0, T0, T1, T1, T1, T1, T1, T1, T1, T0, T0, T0, T0, T0, T0, T0, T1]"] b c d
  show ?thesis by simp
qed

section \<open>Termination under fair scheduling\<close>

lemma yielding_init: "yielding init"
  by (simp add: yielding_def init_def)

lemma yielding_step: "safe s \<Longrightarrow> yielding s \<Longrightarrow> yielding (step n w s)"
  by (cases w; cases "pc s 0"; cases "pc s 1"; simp add: safe_def yielding_def step_defs)

lemma work_step: "counted n s \<Longrightarrow> work n (step n w s) \<le> work n s"
  by (cases w; cases "pc s 0"; cases "pc s 1";
      simp add: counted_def work_def effort_def step_defs; arith)

lemma work_step_eq: "counted n s \<Longrightarrow> work n (step n w s) = work n s \<Longrightarrow> stuck w s"
  by (cases w; cases "pc s 0"; cases "pc s 1";
      simp add: counted_def work_def effort_def stuck_def step_defs split: if_splits;
      arith)

lemma stuck_step: "stuck w s \<Longrightarrow> stuck v s \<Longrightarrow> stuck v (step n w s)"
  by (cases w; cases v; cases "pc s 0"; cases "pc s 1";
      simp add: stuck_def step_defs split: if_splits)

lemma stuck_both: "safe s \<Longrightarrow> yielding s \<Longrightarrow> stuck T0 s \<Longrightarrow> stuck T1 s \<Longrightarrow>
  pc s 0 = Finished \<and> pc s 1 = Finished"
  by (cases "pc s 0"; cases "pc s 1"; simp add: safe_def yielding_def stuck_def)

lemma run_snoc: "run n (xs @ [w]) s = step n w (run n xs s)"
  by (induction xs arbitrary: s) simp_all

lemma exec_0: "exec n \<sigma> 0 = init"
  by (simp add: exec_def)

lemma exec_Suc: "exec n \<sigma> (Suc k) = step n (\<sigma> k) (exec n \<sigma> k)"
  by (simp add: exec_def run_snoc)

lemma exec_safe: "safe (exec n \<sigma> k)"
  unfolding exec_def by (rule safe_reachable)

lemma exec_counted: "counted n (exec n \<sigma> k)"
  unfolding exec_def by (rule counted_reachable)

lemma exec_yielding: "yielding (exec n \<sigma> k)"
  by (induction k) (simp_all add: exec_0 exec_Suc yielding_init yielding_step exec_safe)

lemma work_exec_mono: "work n (exec n \<sigma> (k + d)) \<le> work n (exec n \<sigma> k)"
proof (induction d)
  case 0
  show ?case by simp
next
  case (Suc d)
  have "work n (exec n \<sigma> (Suc (k + d))) \<le> work n (exec n \<sigma> (k + d))"
    unfolding exec_Suc by (rule work_step [OF exec_counted])
  with Suc show ?case by simp
qed

lemma work_settles: "\<exists>K. \<forall>k\<ge>K. work n (exec n \<sigma> k) = work n (exec n \<sigma> K)"
proof -
  let ?f = "\<lambda>k. work n (exec n \<sigma> k)"
  let ?P = "\<lambda>m. \<exists>k. ?f k = m"
  have "?P (?f 0)" by blast
  then have "?P (LEAST m. ?P m)" by (rule LeastI)
  then obtain K where K: "?f K = (LEAST m. ?P m)" by blast
  have "?f k = ?f K" if "K \<le> k" for k
  proof -
    have "?P (?f k)" by blast
    then have "(LEAST m. ?P m) \<le> ?f k" by (rule Least_le)
    moreover have "?f k \<le> ?f K"
      using work_exec_mono [of n \<sigma> K "k - K"] that by simp
    ultimately show ?thesis using K by simp
  qed
  then show ?thesis by blast
qed

lemma settled_stuck:
  assumes "\<forall>k\<ge>K. work n (exec n \<sigma> k) = work n (exec n \<sigma> K)" and "K \<le> k"
  shows "stuck (\<sigma> k) (exec n \<sigma> k)"
proof -
  from assms have a: "work n (exec n \<sigma> k) = work n (exec n \<sigma> K)" by blast
  from assms have "K \<le> Suc k" by arith
  with assms(1) have "work n (exec n \<sigma> (Suc k)) = work n (exec n \<sigma> K)" by blast
  with a have "work n (exec n \<sigma> (Suc k)) = work n (exec n \<sigma> k)" by (rule ssubst)
  then have "work n (step n (\<sigma> k) (exec n \<sigma> k)) = work n (exec n \<sigma> k)"
    by (simp add: exec_Suc)
  with exec_counted show ?thesis by (rule work_step_eq)
qed

lemma settled_stays_stuck:
  assumes "\<forall>k\<ge>K. work n (exec n \<sigma> k) = work n (exec n \<sigma> K)" and "K \<le> k"
    and "stuck v (exec n \<sigma> k)"
  shows "stuck v (exec n \<sigma> (k + d))"
proof (induction d)
  case 0
  from assms(3) show ?case by simp
next
  case (Suc d)
  from assms(2) have "K \<le> k + d" by simp
  with assms(1) have "stuck (\<sigma> (k + d)) (exec n \<sigma> (k + d))" by (rule settled_stuck)
  from this Suc have "stuck v (step n (\<sigma> (k + d)) (exec n \<sigma> (k + d)))"
    by (rule stuck_step)
  then show ?case by (simp add: exec_Suc)
qed

text \<open>
  Claim C8 (no deadlock). Under every fair schedule, for every loop bound (so for
  \<open>NUM_ITERATIONS = 5\<close>), some prefix of the schedule brings both threads to
  \<open>Finished\<close>, and then both joins of \<open>main\<close> have returned.
\<close>

theorem fair_termination:
  assumes "fair \<sigma>"
  shows "\<exists>k. pc (run n (map \<sigma> [0..<k]) init) 0 = Finished \<and>
             pc (run n (map \<sigma> [0..<k]) init) 1 = Finished \<and>
             main n (map \<sigma> [0..<k]) \<noteq> None"
proof -
  obtain K where K: "\<forall>k\<ge>K. work n (exec n \<sigma> k) = work n (exec n \<sigma> K)"
    using work_settles by blast
  from assms obtain j0 where j0: "K \<le> j0" "\<sigma> j0 = T0"
    unfolding fair_def by blast
  from assms obtain j1 where j1: "K \<le> j1" "\<sigma> j1 = T1"
    unfolding fair_def by blast
  have "stuck T0 (exec n \<sigma> j0)" using settled_stuck [OF K j0(1)] j0(2) by simp
  then have "stuck T0 (exec n \<sigma> (j0 + (max j0 j1 - j0)))"
    by (rule settled_stays_stuck [OF K j0(1)])
  then have s0: "stuck T0 (exec n \<sigma> (max j0 j1))" by simp
  have "stuck T1 (exec n \<sigma> j1)" using settled_stuck [OF K j1(1)] j1(2) by simp
  then have "stuck T1 (exec n \<sigma> (j1 + (max j0 j1 - j1)))"
    by (rule settled_stays_stuck [OF K j1(1)])
  then have s1: "stuck T1 (exec n \<sigma> (max j0 j1))" by simp
  from exec_safe exec_yielding s0 s1
  have "pc (exec n \<sigma> (max j0 j1)) 0 = Finished \<and> pc (exec n \<sigma> (max j0 j1)) 1 = Finished"
    by (rule stuck_both)
  then have "pc (run n (map \<sigma> [0..<max j0 j1]) init) 0 = Finished \<and>
             pc (run n (map \<sigma> [0..<max j0 j1]) init) 1 = Finished \<and>
             main n (map \<sigma> [0..<max j0 j1]) \<noteq> None"
    by (simp add: exec_def main_def)
  then show ?thesis by blast
qed

theorem fair_termination_witness:
  "fair (\<lambda>j. if even j then T0 else T1) \<and>
   (\<exists>k. pc (run NUM_ITERATIONS (map (\<lambda>j. if even j then T0 else T1) [0..<k]) init) 0 = Finished \<and>
        pc (run NUM_ITERATIONS (map (\<lambda>j. if even j then T0 else T1) [0..<k]) init) 1 = Finished \<and>
        main NUM_ITERATIONS (map (\<lambda>j. if even j then T0 else T1) [0..<k]) \<noteq> None)"
proof -
  have f: "fair (\<lambda>j. if even j then T0 else T1)"
    unfolding fair_def
  proof (intro allI)
    fix w :: worker and k :: nat
    show "\<exists>j. k \<le> j \<and> (if even j then T0 else T1) = w"
    proof (cases w)
      case T0
      have "k \<le> 2 * k \<and> (if even (2 * k) then T0 else T1) = T0" by simp
      with T0 show ?thesis by blast
    next
      case T1
      have "k \<le> 2 * k + 1 \<and> (if even (2 * k + 1) then T0 else T1) = T1" by simp
      with T1 show ?thesis by blast
    qed
  qed
  from fair_termination [OF f, of NUM_ITERATIONS] f show ?thesis by blast
qed

end
